theory Spec2Isabelle
  imports Main "HOL-Library.Word" "HOL-Library.Signed_Division"
begin

section \<open>The single-slot event scheduler of printipi (src/scheduler.h)\<close>

text \<open>
  The class \<^verbatim>\<open>Scheduler<Interface>\<close> owns one pending \<^verbatim>\<open>OutputEvent\<close>, a sleep
  ceiling and an exit flag. Its \<^verbatim>\<open>eventLoop\<close> interleaves three effects on the outside
  world: \<^verbatim>\<open>interface.queue\<close> (dispatch of a due event), \<^verbatim>\<open>interface.onIdleCpu\<close>
  (one slice of background work, which may call back into the scheduler) and
  \<^verbatim>\<open>SleepT::sleep_until\<close>.

  The embedding threads an explicit world \<open>'w\<close> (everything outside the Scheduler
  object: the interface's own state, the clock, the hardware) through the code. The
  template parameter \<^verbatim>\<open>Interface\<close> is a record of functions over that world, the
  clock and the sleep primitive are a second record. The loop additionally writes a
  trace of the calls it makes, newest first, so that statements about which calls
  happen, and when, can be made about the result of a run.
\<close>

subsection \<open>Types declared outside scheduler.h\<close>

text \<open>
  Modelled from the spec: \<^verbatim>\<open>EventClockT\<close> (common/intervaltimer.h is missing). Time
  points and durations of the monotonic clock are counted in clock ticks; only
  comparison and addition are used. Arithmetic on them is unbounded here.
\<close>

type_synonym time_point = int
type_synonym duration = int

text \<open>
  Modelled from the spec: \<^verbatim>\<open>OnIdleCpuIntervalT\<close> (schedulerbase.h is missing); the two
  enumerators are the ones scheduler.h uses.
\<close>

datatype OnIdleCpuIntervalT = OnIdleCpuIntervalShort | OnIdleCpuIntervalWide

text \<open>
  Modelled from the spec: \<^verbatim>\<open>OutputEvent\<close> (outputevent.h is missing). A value that
  wraps a logical time and an opaque payload, with an explicit empty sentinel distinct
  from any valid time value. \<^verbatim>\<open>OutputEvent()\<close>, the default-constructed event, is the
  sentinel; \<^verbatim>\<open>isNull()\<close> recognises it; \<^verbatim>\<open>time()\<close> is read only on events that are
  not null.
\<close>

datatype 'p OutputEvent = NullEvent | Event (time: time_point) (payload: 'p)

text \<open>Modelled from the spec: the default constructor \<^verbatim>\<open>OutputEvent()\<close>, which gives the
  empty sentinel.\<close>

definition OutputEvent_default :: "'p OutputEvent" where
  "OutputEvent_default = NullEvent"

text \<open>Modelled from the spec: \<^verbatim>\<open>OutputEvent::isNull()\<close>, true on the empty sentinel only.\<close>

definition isNull :: "'p OutputEvent \<Rightarrow> bool" where
  "isNull evt = (case evt of NullEvent \<Rightarrow> True | Event t p \<Rightarrow> False)"

subsection \<open>The Scheduler object\<close>

text \<open>
  The data members \<^verbatim>\<open>MAX_SLEEP\<close>, \<^verbatim>\<open>nextEvent\<close> and \<^verbatim>\<open>_doExit\<close>. The fourth member,
  \<^verbatim>\<open>interface\<close>, is never assigned after construction and is passed to the member
  functions as the argument \<open>I\<close>.
\<close>

record 'p Scheduler =
  MAX_SLEEP :: duration
  nextEvent :: "'p OutputEvent"
  doExit :: bool

text \<open>
  The calls the outside can make on a Scheduler while \<^verbatim>\<open>onIdleCpu\<close> runs: its public
  member functions that change it. (\<^verbatim>\<open>isRoomInBuffer\<close> only reads;
  \<^verbatim>\<open>initSchedThread\<close> touches no member; a re-entrant \<^verbatim>\<open>eventLoop\<close> is excluded.)
\<close>

datatype 'p SchedCall =
  CallQueue "'p OutputEvent"
| CallSetMaxSleep duration
| CallExitEventLoop

text \<open>
  The template parameter \<^verbatim>\<open>Interface\<close>: the three member functions the Scheduler
  calls. \<^verbatim>\<open>onIdleCpu\<close> is handed the Scheduler as it stands (it can read it through
  \<^verbatim>\<open>isRoomInBuffer\<close>) and answers with its return value, the calls it made on the
  Scheduler in order, and the world it leaves behind. \<^verbatim>\<open>Interface::queue\<close> (here
  \<open>iface_queue\<close>, as \<open>queue\<close> is the Scheduler's own) changes the world only, and
  \<^verbatim>\<open>schedTime\<close>, called from const member functions, only reads it: neither calls
  back into the Scheduler.
\<close>

record ('p, 'w) Interface =
  iface_queue :: "'p OutputEvent \<Rightarrow> 'w \<Rightarrow> 'w"
  onIdleCpu :: "OnIdleCpuIntervalT \<Rightarrow> 'p Scheduler \<Rightarrow> 'w \<Rightarrow> bool \<times> 'p SchedCall list \<times> 'w"
  schedTime :: "time_point \<Rightarrow> 'w \<Rightarrow> time_point"

text \<open>\<^verbatim>\<open>EventClockT::now()\<close> and \<^verbatim>\<open>SleepT::sleep_until\<close>.\<close>

record 'w Platform =
  now :: "'w \<Rightarrow> time_point"
  sleep_until :: "time_point \<Rightarrow> 'w \<Rightarrow> 'w"

subsection \<open>Member functions other than the loop\<close>

definition setMaxSleep :: "duration \<Rightarrow> 'p Scheduler \<Rightarrow> 'p Scheduler" where
  "setMaxSleep d s = s\<lparr>MAX_SLEEP := d\<rparr>"

text \<open>
  \<^verbatim>\<open>setMaxSleep(std::chrono::milliseconds(40))\<close>; the argument \<open>ms\<close> is the number of
  clock ticks in a millisecond (the \<^verbatim>\<open>duration_cast\<close> to the clock's duration).
\<close>

definition setDefaultMaxSleep :: "duration \<Rightarrow> 'p Scheduler \<Rightarrow> 'p Scheduler" where
  "setDefaultMaxSleep ms s = setMaxSleep (40 * ms) s"

text \<open>
  The constructor: \<^verbatim>\<open>nextEvent\<close> is default-constructed, \<^verbatim>\<open>_doExit(false)\<close>, then
  \<^verbatim>\<open>setDefaultMaxSleep()\<close>.
\<close>

definition Scheduler_new :: "duration \<Rightarrow> 'p Scheduler" where
  "Scheduler_new ms =
     setDefaultMaxSleep ms \<lparr>MAX_SLEEP = 0, nextEvent = OutputEvent_default, doExit = False\<rparr>"

definition queue :: "'p OutputEvent \<Rightarrow> 'p Scheduler \<Rightarrow> 'p Scheduler" where
  "queue evt s = s\<lparr>nextEvent := evt\<rparr>"

definition isRoomInBuffer :: "'p Scheduler \<Rightarrow> bool" where
  "isRoomInBuffer s = isNull (nextEvent s)"

definition exitEventLoop :: "'p Scheduler \<Rightarrow> 'p Scheduler" where
  "exitEventLoop s = s\<lparr>doExit := True\<rparr>"

definition isEventTime :: "('p, 'w) Interface \<Rightarrow> 'w Platform \<Rightarrow> 'w \<Rightarrow> 'p OutputEvent \<Rightarrow> bool" where
  "isEventTime I P w evt = (schedTime I (time evt) w \<le> now P w)"

text \<open>
  \<^verbatim>\<open>sleepUntilEvent\<close>, in two parts: the value of the local \<^verbatim>\<open>sleepUntil\<close> when
  \<^verbatim>\<open>SleepT::sleep_until\<close> is reached, and the call itself.
\<close>

definition sleepUntil_of :: "('p, 'w) Interface \<Rightarrow> 'w Platform \<Rightarrow> 'p Scheduler \<Rightarrow> 'w \<Rightarrow> 'p OutputEvent \<Rightarrow> time_point" where
  "sleepUntil_of I P s w evt =
     (let sleepUntil = now P w + MAX_SLEEP s in
      if \<not> isNull evt then
        (let evtTime = schedTime I (time evt) w in
         if evtTime < sleepUntil then evtTime else sleepUntil)
      else sleepUntil)"

definition sleepUntilEvent :: "('p, 'w) Interface \<Rightarrow> 'w Platform \<Rightarrow> 'p Scheduler \<Rightarrow> 'w \<Rightarrow> 'p OutputEvent \<Rightarrow> 'w" where
  "sleepUntilEvent I P s w evt = sleep_until P (sleepUntil_of I P s w evt) w"

fun apply_call :: "'p SchedCall \<Rightarrow> 'p Scheduler \<Rightarrow> 'p Scheduler" where
  "apply_call (CallQueue evt) s = queue evt s"
| "apply_call (CallSetMaxSleep d) s = setMaxSleep d s"
| "apply_call CallExitEventLoop s = exitEventLoop s"

fun apply_calls :: "'p SchedCall list \<Rightarrow> 'p Scheduler \<Rightarrow> 'p Scheduler" where
  "apply_calls [] s = s"
| "apply_calls (c # cs) s = apply_calls cs (apply_call c s)"

subsection \<open>The event loop\<close>

text \<open>
  What a run leaves in the trace: a dispatch (with the world it was made in), an idle
  slice (the interval class passed, the value returned, the calls it made on the
  Scheduler) and a sleep (with the wake deadline).
\<close>

datatype ('p, 'w) Action =
  ActQueue "'p OutputEvent" 'w
| ActOnIdleCpu OnIdleCpuIntervalT bool "'p SchedCall list"
| ActSleep time_point

text \<open>
  The state of a running loop: the Scheduler, the locals \<^verbatim>\<open>intervalT\<close> and
  \<^verbatim>\<open>numShortIntervals\<close>, the world, and the trace (newest action first).
  \<^verbatim>\<open>numShortIntervals\<close> is a C++ \<^verbatim>\<open>int\<close>: 32 bits, read as signed, with the increment
  wrapping around in two's complement.
\<close>

record ('p, 'w) LoopState =
  sched :: "'p Scheduler"
  intervalT :: OnIdleCpuIntervalT
  numShortIntervals :: "32 word"
  world :: 'w
  trace :: "('p, 'w) Action list"

datatype flow = Continue | Break

datatype 'a outcome = Returned 'a | OutOfFuel 'a

fun outcome_state :: "'a outcome \<Rightarrow> 'a" where
  "outcome_state (Returned x) = x"
| "outcome_state (OutOfFuel x) = x"

fun has_returned :: "'a outcome \<Rightarrow> bool" where
  "has_returned (Returned x) = True"
| "has_returned (OutOfFuel x) = False"

definition eventLoop_init :: "'p Scheduler \<Rightarrow> 'w \<Rightarrow> ('p, 'w) LoopState" where
  "eventLoop_init s w =
     \<lparr>sched = s, intervalT = OnIdleCpuIntervalWide, numShortIntervals = 0, world = w, trace = []\<rparr>"

text \<open>Lines 105 to 110: dispatch the pending event if it is due, and reset the slot.\<close>

definition dispatch_due :: "('p, 'w) Interface \<Rightarrow> 'w Platform \<Rightarrow> ('p, 'w) LoopState \<Rightarrow> ('p, 'w) LoopState" where
  "dispatch_due I P st =
     (if \<not> isNull (nextEvent (sched st)) \<and> isEventTime I P (world st) (nextEvent (sched st)) then
        st\<lparr>world := iface_queue I (nextEvent (sched st)) (world st),
           trace := ActQueue (nextEvent (sched st)) (world st) # trace st,
           sched := (sched st)\<lparr>nextEvent := OutputEvent_default\<rparr>\<rparr>
      else st)"

text \<open>
  Lines 111 to 126: the idle slice, then either the exit check and the sleep, or the
  count of short intervals.
\<close>

definition idle_slice :: "('p, 'w) Interface \<Rightarrow> 'w Platform \<Rightarrow> ('p, 'w) LoopState \<Rightarrow> flow \<times> ('p, 'w) LoopState" where
  "idle_slice I P st =
     (case onIdleCpu I (intervalT st) (sched st) (world st) of (busy, calls, w') \<Rightarrow>
        let st' = st\<lparr>sched := apply_calls calls (sched st), world := w',
                     trace := ActOnIdleCpu (intervalT st) busy calls # trace st\<rparr>
        in
          if \<not> busy then
            if doExit (sched st') then (Break, st')
            else (Continue,
                  st'\<lparr>world := sleepUntilEvent I P (sched st') w' (nextEvent (sched st')),
                      trace := ActSleep (sleepUntil_of I P (sched st') w' (nextEvent (sched st'))) # trace st',
                      intervalT := OnIdleCpuIntervalWide\<rparr>)
          else
            (let n = numShortIntervals st' + 1 in
             (Continue,
              st'\<lparr>numShortIntervals := n,
                  intervalT := (if sint n smod 2048 \<noteq> 0 then OnIdleCpuIntervalShort
                                else OnIdleCpuIntervalWide)\<rparr>)))"

definition loop_body :: "('p, 'w) Interface \<Rightarrow> 'w Platform \<Rightarrow> ('p, 'w) LoopState \<Rightarrow> flow \<times> ('p, 'w) LoopState" where
  "loop_body I P st = idle_slice I P (dispatch_due I P st)"

text \<open>
  \<^verbatim>\<open>while (!_doExit) { ... }\<close>. The loop is meant to run until it is cancelled, so it
  is run on fuel: one unit per iteration. \<open>Returned\<close> is the state in which the loop was
  left, \<open>OutOfFuel\<close> the state at the head of the first iteration the fuel did not
  pay for. The test of \<^verbatim>\<open>_doExit\<close> costs nothing.
\<close>

fun eventLoop_while :: "nat \<Rightarrow> ('p, 'w) Interface \<Rightarrow> 'w Platform \<Rightarrow> ('p, 'w) LoopState \<Rightarrow> ('p, 'w) LoopState outcome" where
  "eventLoop_while 0 I P st =
     (if doExit (sched st) then Returned st else OutOfFuel st)"
| "eventLoop_while (Suc fuel) I P st =
     (if doExit (sched st) then Returned st
      else (case loop_body I P st of
              (Break, st') \<Rightarrow> Returned st'
            | (Continue, st') \<Rightarrow> eventLoop_while fuel I P st'))"

text \<open>\<^verbatim>\<open>eventLoop\<close>: the locals, the loop, and \<^verbatim>\<open>_doExit = false\<close> on the way out.\<close>

definition eventLoop :: "nat \<Rightarrow> ('p, 'w) Interface \<Rightarrow> 'w Platform \<Rightarrow> 'p Scheduler \<Rightarrow> 'w \<Rightarrow> ('p, 'w) LoopState outcome" where
  "eventLoop fuel I P s w =
     (case eventLoop_while fuel I P (eventLoop_init s w) of
        Returned st \<Rightarrow> Returned (st\<lparr>sched := (sched st)\<lparr>doExit := False\<rparr>\<rparr>)
      | OutOfFuel st \<Rightarrow> OutOfFuel st)"

subsection \<open>Reading a trace\<close>

text \<open>
  The predicates below are not code of the repository: they say what the statements of
  the next section read off a trace.
\<close>

text \<open>A dispatch was on time: the event was not null and its deadline had been reached
  on the clock of the world in which \<^verbatim>\<open>interface.queue\<close> was called.\<close>

fun dispatch_on_time :: "('p, 'w) Interface \<Rightarrow> 'w Platform \<Rightarrow> ('p, 'w) Action \<Rightarrow> bool" where
  "dispatch_on_time I P (ActQueue evt w) = (\<not> isNull evt \<and> schedTime I (time evt) w \<le> now P w)"
| "dispatch_on_time I P (ActOnIdleCpu iv busy calls) = True"
| "dispatch_on_time I P (ActSleep t) = True"

text \<open>The idle slices of a trace, newest first: the interval class each was given and
  the value it returned.\<close>

fun idle_calls :: "('p, 'w) Action list \<Rightarrow> (OnIdleCpuIntervalT \<times> bool) list" where
  "idle_calls [] = []"
| "idle_calls (ActQueue evt w # tr) = idle_calls tr"
| "idle_calls (ActOnIdleCpu iv busy calls # tr) = (iv, busy) # idle_calls tr"
| "idle_calls (ActSleep t # tr) = idle_calls tr"

definition count_true :: "(OnIdleCpuIntervalT \<times> bool) list \<Rightarrow> nat" where
  "count_true ic = length (filter snd ic)"

text \<open>
  The interval class of the next idle slice, read off the idle slices made so far:
  wide at the start and after a slice that returned false, and after a slice that
  returned true wide exactly when the number of true results since the loop started
  is a multiple of 2048.
\<close>

fun interval_after :: "(OnIdleCpuIntervalT \<times> bool) list \<Rightarrow> OnIdleCpuIntervalT" where
  "interval_after [] = OnIdleCpuIntervalWide"
| "interval_after ((iv, busy) # older) =
     (if busy then
        (if 2048 dvd count_true ((iv, busy) # older) then OnIdleCpuIntervalWide
         else OnIdleCpuIntervalShort)
      else OnIdleCpuIntervalWide)"

fun intervals_follow :: "(OnIdleCpuIntervalT \<times> bool) list \<Rightarrow> bool" where
  "intervals_follow [] = True"
| "intervals_follow ((iv, busy) # older) = (iv = interval_after older \<and> intervals_follow older)"

text \<open>
  The counter agrees with the trace: \<^verbatim>\<open>numShortIntervals\<close> is the number of idle
  slices that returned true since the loop started (as a 32-bit value), and every
  idle slice was given the interval class \<open>interval_after\<close> reads off the slices
  before it. At the head of an iteration the local \<^verbatim>\<open>intervalT\<close> is moreover the class
  the next slice is due.
\<close>

definition counting :: "('p, 'w) LoopState \<Rightarrow> bool" where
  "counting st \<longleftrightarrow>
     numShortIntervals st = of_nat (count_true (idle_calls (trace st))) \<and>
     intervals_follow (idle_calls (trace st))"

definition counting_head :: "('p, 'w) LoopState \<Rightarrow> bool" where
  "counting_head st \<longleftrightarrow> counting st \<and> intervalT st = interval_after (idle_calls (trace st))"

definition is_wide :: "OnIdleCpuIntervalT \<times> bool \<Rightarrow> bool" where
  "is_wide c = (fst c = OnIdleCpuIntervalWide)"

text \<open>
  The pending event in the words of the spec: the event that was offered last and has
  not been dispatched since. \<open>offered\<close> runs through the calls of one idle slice,
  \<open>pending_after\<close> through a trace (newest first), starting from the slot \<open>e0\<close> the
  loop was entered with.
\<close>

fun offered :: "'p SchedCall list \<Rightarrow> 'p OutputEvent \<Rightarrow> 'p OutputEvent" where
  "offered [] e = e"
| "offered (CallQueue evt # cs) e = offered cs evt"
| "offered (CallSetMaxSleep d # cs) e = offered cs e"
| "offered (CallExitEventLoop # cs) e = offered cs e"

fun pending_after :: "'p OutputEvent \<Rightarrow> ('p, 'w) Action list \<Rightarrow> 'p OutputEvent" where
  "pending_after e0 [] = e0"
| "pending_after e0 (ActQueue evt w # tr) = NullEvent"
| "pending_after e0 (ActOnIdleCpu iv busy calls # tr) = offered calls (pending_after e0 tr)"
| "pending_after e0 (ActSleep t # tr) = pending_after e0 tr"

text \<open>
  An idle slice cancelled: \<^verbatim>\<open>exitEventLoop\<close> is among the calls it made. A trace in
  which an idle slice that cancelled is followed by no action at all.
\<close>

fun cancels :: "('p, 'w) Action \<Rightarrow> bool" where
  "cancels (ActQueue evt w) = False"
| "cancels (ActOnIdleCpu iv busy calls) = (CallExitEventLoop \<in> set calls)"
| "cancels (ActSleep t) = False"

definition cancel_seen :: "('p, 'w) Action list \<Rightarrow> bool" where
  "cancel_seen tr = list_ex cancels tr"

fun nothing_after_cancel :: "('p, 'w) Action list \<Rightarrow> bool" where
  "nothing_after_cancel [] = True"
| "nothing_after_cancel (a # tr) = (\<not> cancel_seen tr \<and> nothing_after_cancel tr)"

subsection \<open>Interfaces to run the loop on\<close>

text \<open>
  A small world that is only a clock. The idle slice takes one tick, reports more work
  before tick 5, offers an event due at tick 6 when called at tick 2, and cancels when
  called at tick 7; a dispatch takes one tick; sleeping moves the clock to the wake
  deadline.
\<close>

definition I_demo :: "(nat, int) Interface" where
  "I_demo =
     \<lparr>iface_queue = (\<lambda>evt w. w + 1),
      onIdleCpu = (\<lambda>iv s w. (w < 5,
                     if w = 7 then [CallExitEventLoop]
                     else if w = 2 then [CallQueue (Event 6 0)] else [],
                     w + 1)),
      schedTime = (\<lambda>t w. t)\<rparr>"

definition P_demo :: "int Platform" where
  "P_demo = \<lparr>now = (\<lambda>w. w), sleep_until = (\<lambda>t w. max t w)\<rparr>"

text \<open>A loop state at the head of the first iteration, with an event for time \<open>t\<close> in
  the slot and the clock at \<open>w\<close>.\<close>

definition st_demo :: "time_point \<Rightarrow> int \<Rightarrow> (nat, int) LoopState" where
  "st_demo t w = eventLoop_init (queue (Event t 0) (Scheduler_new 1)) w"

text \<open>
  A world that counts the idle slices made: the \<open>w\<close>-th slice (from 0) returns \<open>f w\<close>
  and calls nothing; sleeping and dispatching leave the count alone.
\<close>

definition I_scripted :: "(nat \<Rightarrow> bool) \<Rightarrow> (nat, nat) Interface" where
  "I_scripted f =
     \<lparr>iface_queue = (\<lambda>evt w. w),
      onIdleCpu = (\<lambda>iv s w. (f w, [], Suc w)),
      schedTime = (\<lambda>t w. t)\<rparr>"

definition P_still :: "nat Platform" where
  "P_still = \<lparr>now = (\<lambda>w. int w), sleep_until = (\<lambda>t w. w)\<rparr>"

section \<open>Lemmas\<close>

subsection \<open>The test on the counter\<close>

text \<open>
  \<^verbatim>\<open>++numShortIntervals % 2048\<close> is zero exactly when the number of increments so far
  is a multiple of 2048, also after the 32-bit counter has wrapped around: 2048
  divides \<open>2 ^ 32\<close>, and the remainder of a negative value is zero only on multiples.
\<close>

lemma smod_zero_iff_dvd: "(a::int) smod 2048 = 0 \<longleftrightarrow> 2048 dvd a"
proof -
  have "a smod 2048 = 0 \<longleftrightarrow> a = 0 \<or> \<bar>a\<bar> mod 2048 = 0"
    by (simp add: smod_int_alt_def sgn_if)
  also have "\<dots> \<longleftrightarrow> 2048 dvd \<bar>a\<bar>"
    by (auto simp: dvd_eq_mod_eq_0)
  finally show ?thesis by simp
qed

lemma dvd_sint_iff: "(2048::int) dvd sint (w :: 32 word) \<longleftrightarrow> 2048 dvd uint w"
proof -
  have "uint w mod 2048 = (sint w mod 2 ^ 32) mod 2048"
    by (simp add: uint_sint [of w] take_bit_eq_mod)
  also have "\<dots> = sint w mod 2048"
    by (rule mod_mod_cancel) simp
  finally show ?thesis by (simp add: dvd_eq_mod_eq_0)
qed

lemma dvd_uint_of_nat: "(2048::int) dvd uint (of_nat k :: 32 word) \<longleftrightarrow> 2048 dvd k"
proof -
  have "unat (of_nat k :: 32 word) mod 2048 = (k mod 2 ^ 32) mod 2048"
    by (simp add: unat_of_nat)
  also have "\<dots> = k mod 2048"
    by (rule mod_mod_cancel) simp
  finally have "(2048::nat) dvd unat (of_nat k :: 32 word) \<longleftrightarrow> 2048 dvd k"
    by (simp add: dvd_eq_mod_eq_0)
  moreover have "(2048::int) dvd uint (of_nat k :: 32 word) \<longleftrightarrow> (2048::nat) dvd unat (of_nat k :: 32 word)"
    unfolding uint_nat by presburger
  ultimately show ?thesis by simp
qed

lemma short_test_of_nat:
  "sint (of_nat k :: 32 word) smod 2048 \<noteq> 0 \<longleftrightarrow> \<not> 2048 dvd k"
  by (simp add: smod_zero_iff_dvd dvd_sint_iff dvd_uint_of_nat)

subsection \<open>One iteration, and a rule for the loop\<close>

lemma eventLoop_while_doExit: "doExit (sched st) \<Longrightarrow> eventLoop_while fuel I P st = Returned st"
  by (cases fuel) simp_all

lemma eventLoop_while_rule:
  assumes init: "Inv st"
    and cont: "\<And>st st'. Inv st \<Longrightarrow> \<not> doExit (sched st) \<Longrightarrow> loop_body I P st = (Continue, st') \<Longrightarrow> Inv st'"
    and brk: "\<And>st st'. Inv st \<Longrightarrow> \<not> doExit (sched st) \<Longrightarrow> loop_body I P st = (Break, st') \<Longrightarrow> Q st'"
    and fin: "\<And>st. Inv st \<Longrightarrow> Q st"
  shows "Q (outcome_state (eventLoop_while fuel I P st))"
  using init
proof (induction fuel arbitrary: st)
  case 0
  then show ?case by (simp add: fin)
next
  case (Suc fuel)
  show ?case
  proof (cases "doExit (sched st)")
    case True
    then show ?thesis using Suc.prems by (simp add: fin)
  next
    case False
    obtain f st' where b: "loop_body I P st = (f, st')" by (cases "loop_body I P st")
    show ?thesis
    proof (cases f)
      case Continue
      then have "Inv st'" using cont Suc.prems False b by blast
      then show ?thesis using Suc.IH False b Continue by simp
    next
      case Break
      then show ?thesis using brk Suc.prems False b by simp
    qed
  qed
qed

lemma idle_slice_busy:
  assumes "onIdleCpu I (intervalT st) (sched st) (world st) = (True, calls, w')"
  shows "idle_slice I P st =
    (Continue, st\<lparr>sched := apply_calls calls (sched st), world := w',
        trace := ActOnIdleCpu (intervalT st) True calls # trace st,
        numShortIntervals := numShortIntervals st + 1,
        intervalT := (if sint (numShortIntervals st + 1) smod 2048 \<noteq> 0
                      then OnIdleCpuIntervalShort else OnIdleCpuIntervalWide)\<rparr>)"
  using assms by (simp add: idle_slice_def Let_def)

lemma idle_slice_exit:
  assumes "onIdleCpu I (intervalT st) (sched st) (world st) = (False, calls, w')"
    and "doExit (apply_calls calls (sched st))"
  shows "idle_slice I P st =
    (Break, st\<lparr>sched := apply_calls calls (sched st), world := w',
        trace := ActOnIdleCpu (intervalT st) False calls # trace st\<rparr>)"
  using assms by (simp add: idle_slice_def Let_def)

lemma idle_slice_sleep:
  assumes "onIdleCpu I (intervalT st) (sched st) (world st) = (False, calls, w')"
    and "\<not> doExit (apply_calls calls (sched st))"
  shows "idle_slice I P st =
    (Continue, st\<lparr>sched := apply_calls calls (sched st),
        world := sleep_until P (sleepUntil_of I P (apply_calls calls (sched st)) w'
                   (nextEvent (apply_calls calls (sched st)))) w',
        trace := ActSleep (sleepUntil_of I P (apply_calls calls (sched st)) w'
                   (nextEvent (apply_calls calls (sched st))))
                 # ActOnIdleCpu (intervalT st) False calls # trace st,
        intervalT := OnIdleCpuIntervalWide\<rparr>)"
  using assms by (simp add: idle_slice_def Let_def sleepUntilEvent_def)

lemma dispatch_due_locals:
  "intervalT (dispatch_due I P st) = intervalT st"
  "numShortIntervals (dispatch_due I P st) = numShortIntervals st"
  "idle_calls (trace (dispatch_due I P st)) = idle_calls (trace st)"
  "doExit (sched (dispatch_due I P st)) = doExit (sched st)"
  "MAX_SLEEP (sched (dispatch_due I P st)) = MAX_SLEEP (sched st)"
  by (simp_all add: dispatch_due_def)

lemma count_true_Cons [simp]: "count_true ((iv, b) # ic) = (if b then Suc (count_true ic) else count_true ic)"
  by (simp add: count_true_def)

lemma count_true_Nil [simp]: "count_true [] = 0"
  by (simp add: count_true_def)

lemma idle_slice_counting:
  assumes inv: "counting_head st" and step: "idle_slice I P st = (f, st')"
  shows "counting st' \<and> (f = Continue \<longrightarrow> intervalT st' = interval_after (idle_calls (trace st')))
     \<and> (\<forall>iv older. idle_calls (trace st') = (iv, True) # older \<longrightarrow> intervalT st' = interval_after (idle_calls (trace st')))"
proof -
  obtain busy calls w' where o: "onIdleCpu I (intervalT st) (sched st) (world st) = (busy, calls, w')"
    by (cases "onIdleCpu I (intervalT st) (sched st) (world st)")
  let ?k = "count_true (idle_calls (trace st))"
  show ?thesis
  proof (cases busy)
    case True
    have o': "onIdleCpu I (intervalT st) (sched st) (world st) = (True, calls, w')"
      using o True by simp
    have n: "numShortIntervals st + 1 = of_nat (Suc ?k)"
      using inv by (simp add: counting_head_def counting_def)
    show ?thesis
      using inv step idle_slice_busy [OF o', of P] short_test_of_nat [of "Suc ?k"]
      unfolding n by (auto simp: counting_head_def counting_def)
  next
    case False
    have o': "onIdleCpu I (intervalT st) (sched st) (world st) = (False, calls, w')"
      using o False by simp
    show ?thesis
    proof (cases "doExit (apply_calls calls (sched st))")
      case True
      show ?thesis
        using inv step idle_slice_exit [OF o' True, of P]
        by (auto simp: counting_head_def counting_def)
    next
      case nx: False
      show ?thesis
        using inv step idle_slice_sleep [OF o' nx, of P]
        by (auto simp: counting_head_def counting_def)
    qed
  qed
qed

lemma loop_body_counting:
  assumes inv: "counting_head st" and step: "loop_body I P st = (f, st')"
  shows "counting st' \<and> (f = Continue \<longrightarrow> intervalT st' = interval_after (idle_calls (trace st')))
     \<and> (\<forall>iv older. idle_calls (trace st') = (iv, True) # older \<longrightarrow> intervalT st' = interval_after (idle_calls (trace st')))"
proof (rule idle_slice_counting)
  show "counting_head (dispatch_due I P st)"
    using inv by (simp add: counting_head_def counting_def dispatch_due_locals)
  show "idle_slice I P (dispatch_due I P st) = (f, st')"
    using step by (simp add: loop_body_def)
qed

lemma eventLoop_while_counting:
  assumes "counting_head st"
  shows "counting (outcome_state (eventLoop_while fuel I P st)) \<and>
     (\<forall>iv older. idle_calls (trace (outcome_state (eventLoop_while fuel I P st))) = (iv, True) # older \<longrightarrow>
        intervalT (outcome_state (eventLoop_while fuel I P st)) = interval_after (idle_calls (trace (outcome_state (eventLoop_while fuel I P st)))))"
proof (rule eventLoop_while_rule [where Inv = counting_head])
  show "counting_head st" by fact
next
  fix st st' :: "('a, 'b) LoopState"
  assume "counting_head st" "loop_body I P st = (Continue, st')"
  then show "counting_head st'" using loop_body_counting [of st I P Continue st'] by (simp add: counting_head_def)
next
  fix st st' :: "('a, 'b) LoopState"
  assume "counting_head st" "loop_body I P st = (Break, st')"
  then show "counting st' \<and> (\<forall>iv older. idle_calls (trace st') = (iv, True) # older \<longrightarrow> intervalT st' = interval_after (idle_calls (trace st')))"
    using loop_body_counting [of st I P Break st'] by simp
next
  fix st :: "('a, 'b) LoopState"
  assume "counting_head st"
  then show "counting st \<and> (\<forall>iv older. idle_calls (trace st) = (iv, True) # older \<longrightarrow> intervalT st = interval_after (idle_calls (trace st)))"
    by (simp add: counting_head_def)
qed

lemma counting_head_init: "counting_head (eventLoop_init s w)"
  by (simp add: counting_head_def counting_def eventLoop_init_def)

lemma dispatch_due_cases:
  "dispatch_due I P st = st \<or>
   (\<not> isNull (nextEvent (sched st))
    \<and> schedTime I (time (nextEvent (sched st))) (world st) \<le> now P (world st)
    \<and> dispatch_due I P st =
        st\<lparr>world := iface_queue I (nextEvent (sched st)) (world st),
           trace := ActQueue (nextEvent (sched st)) (world st) # trace st,
           sched := (sched st)\<lparr>nextEvent := OutputEvent_default\<rparr>\<rparr>)"
  by (simp add: dispatch_due_def isEventTime_def)

lemma idle_slice_trace:
  "idle_slice I P st = (f, st') \<Longrightarrow>
   \<exists>busy calls.
     trace st' = ActOnIdleCpu (intervalT st) busy calls # trace st \<or>
     (\<exists>t. trace st' = ActSleep t # ActOnIdleCpu (intervalT st) busy calls # trace st)"
  by (auto simp: idle_slice_def Let_def split: prod.splits if_splits)

subsection \<open>The slot, the exit flag and the trace\<close>

lemma eventLoop_fields:
  "trace (outcome_state (eventLoop fuel I P s w)) = trace (outcome_state (eventLoop_while fuel I P (eventLoop_init s w)))"
  "world (outcome_state (eventLoop fuel I P s w)) = world (outcome_state (eventLoop_while fuel I P (eventLoop_init s w)))"
  "intervalT (outcome_state (eventLoop fuel I P s w)) = intervalT (outcome_state (eventLoop_while fuel I P (eventLoop_init s w)))"
  "numShortIntervals (outcome_state (eventLoop fuel I P s w)) = numShortIntervals (outcome_state (eventLoop_while fuel I P (eventLoop_init s w)))"
  "nextEvent (sched (outcome_state (eventLoop fuel I P s w))) = nextEvent (sched (outcome_state (eventLoop_while fuel I P (eventLoop_init s w))))"
  "MAX_SLEEP (sched (outcome_state (eventLoop fuel I P s w))) = MAX_SLEEP (sched (outcome_state (eventLoop_while fuel I P (eventLoop_init s w))))"
  by (simp_all add: eventLoop_def split: outcome.splits)

lemma nextEvent_apply_calls: "nextEvent (apply_calls calls s) = offered calls (nextEvent s)"
proof (induction calls arbitrary: s)
  case Nil
  then show ?case by simp
next
  case (Cons c calls)
  then show ?case by (cases c) (simp_all add: queue_def setMaxSleep_def exitEventLoop_def)
qed

lemma doExit_apply_calls:
  "doExit (apply_calls calls s) \<longleftrightarrow> doExit s \<or> CallExitEventLoop \<in> set calls"
proof (induction calls arbitrary: s)
  case Nil
  then show ?case by simp
next
  case (Cons c calls)
  then show ?case by (cases c) (auto simp: queue_def setMaxSleep_def exitEventLoop_def)
qed

lemma dispatch_due_pending:
  assumes "nextEvent (sched st) = pending_after e0 (trace st)"
  shows "nextEvent (sched (dispatch_due I P st)) = pending_after e0 (trace (dispatch_due I P st))"
  using assms by (simp add: dispatch_due_def OutputEvent_default_def)

lemma idle_slice_pending:
  assumes "nextEvent (sched st) = pending_after e0 (trace st)" and "idle_slice I P st = (f, st')"
  shows "nextEvent (sched st') = pending_after e0 (trace st')"
proof -
  obtain busy calls w' where o: "onIdleCpu I (intervalT st) (sched st) (world st) = (busy, calls, w')"
    by (cases "onIdleCpu I (intervalT st) (sched st) (world st)")
  show ?thesis
    using assms o by (auto simp: idle_slice_def Let_def nextEvent_apply_calls split: if_splits)
qed

lemma slot_is_pending:
  "nextEvent (sched (outcome_state (eventLoop fuel I P s w)))
     = pending_after (nextEvent s) (trace (outcome_state (eventLoop fuel I P s w)))"
  unfolding eventLoop_fields
proof (rule eventLoop_while_rule [where Inv = "\<lambda>st. nextEvent (sched st) = pending_after (nextEvent s) (trace st)"])
  show "nextEvent (sched (eventLoop_init s w)) = pending_after (nextEvent s) (trace (eventLoop_init s w))"
    by (simp add: eventLoop_init_def)
next
  fix st st' :: "('a, 'b) LoopState"
  assume "nextEvent (sched st) = pending_after (nextEvent s) (trace st)" "loop_body I P st = (Continue, st')"
  then show "nextEvent (sched st') = pending_after (nextEvent s) (trace st')"
    using idle_slice_pending [OF dispatch_due_pending] by (simp add: loop_body_def)
next
  fix st st' :: "('a, 'b) LoopState"
  assume "nextEvent (sched st) = pending_after (nextEvent s) (trace st)" "loop_body I P st = (Break, st')"
  then show "nextEvent (sched st') = pending_after (nextEvent s) (trace st')"
    using idle_slice_pending [OF dispatch_due_pending] by (simp add: loop_body_def)
qed simp

lemma isNull_iff: "isNull evt \<longleftrightarrow> evt = OutputEvent_default"
  by (cases evt) (simp_all add: isNull_def OutputEvent_default_def)


lemma trace_grows_idle:
  "idle_slice I P st = (f, st') \<Longrightarrow> \<exists>busy calls ys. trace st' = ys @ ActOnIdleCpu (intervalT st) busy calls # trace st"
  by (auto simp: idle_slice_def Let_def split: prod.splits if_splits)

lemma trace_grows_while:
  "\<exists>ys. trace (outcome_state (eventLoop_while fuel I P st)) = ys @ trace st"
proof (rule eventLoop_while_rule [where Inv = "\<lambda>st'. \<exists>ys. trace st' = ys @ trace st"])
  show "\<exists>ys. trace st = ys @ trace st" by simp
next
  fix sa st' :: "('a, 'b) LoopState" and f
  assume inv: "\<exists>ys. trace sa = ys @ trace st"
  have d: "\<exists>ys. trace (dispatch_due I P sa) = ys @ trace st"
    using inv by (auto simp: dispatch_due_def)
  { assume "loop_body I P sa = (Continue, st')"
    then show "\<exists>ys. trace st' = ys @ trace st"
      using d trace_grows_idle [of I P "dispatch_due I P sa" Continue st'] by (auto simp: loop_body_def) }
  { assume "loop_body I P sa = (Break, st')"
    then show "\<exists>ys. trace st' = ys @ trace st"
      using d trace_grows_idle [of I P "dispatch_due I P sa" Break st'] by (auto simp: loop_body_def) }
qed simp

lemma first_iteration_runs:
  assumes "\<not> doExit (sched st)"
  shows "\<exists>busy calls. ActOnIdleCpu (intervalT st) busy calls \<in> set (trace (outcome_state (eventLoop_while (Suc fuel) I P st)))"
proof -
  obtain f st' where b: "loop_body I P st = (f, st')" by (cases "loop_body I P st")
  then obtain busy calls ys where t: "trace st' = ys @ ActOnIdleCpu (intervalT st) busy calls # trace (dispatch_due I P st)"
    using trace_grows_idle [of I P "dispatch_due I P st" f st'] by (auto simp: loop_body_def dispatch_due_locals)
  show ?thesis
  proof (cases f)
    case Break
    then show ?thesis using assms b t by auto
  next
    case Continue
    obtain zs where "trace (outcome_state (eventLoop_while fuel I P st')) = zs @ trace st'"
      using trace_grows_while [of fuel I P st'] by blast
    then show ?thesis using assms b t Continue by auto
  qed
qed

subsection \<open>Cancellation seen in the trace\<close>

lemma cancel_seen_simps [simp]:
  "cancel_seen [] = False"
  "cancel_seen (a # tr) = (cancels a \<or> cancel_seen tr)"
  by (simp_all add: cancel_seen_def)

lemma idle_slice_cancel:
  assumes "nothing_after_cancel (trace st)" "\<not> cancel_seen (trace st)" "\<not> doExit (sched st)"
    and "idle_slice I P st = (f, st')"
  shows "nothing_after_cancel (trace st') \<and> (cancel_seen (trace st') \<longrightarrow> doExit (sched st'))"
proof -
  obtain busy calls w' where o: "onIdleCpu I (intervalT st) (sched st) (world st) = (busy, calls, w')"
    by (cases "onIdleCpu I (intervalT st) (sched st) (world st)")
  show ?thesis
    using assms o by (auto simp: idle_slice_def Let_def doExit_apply_calls split: if_splits)
qed

lemma loop_body_cancel:
  assumes inv: "nothing_after_cancel (trace st) \<and> (cancel_seen (trace st) \<longrightarrow> doExit (sched st))"
    and run: "\<not> doExit (sched st)"
    and step: "loop_body I P st = (f, st')"
  shows "nothing_after_cancel (trace st') \<and> (cancel_seen (trace st') \<longrightarrow> doExit (sched st'))"
proof (rule idle_slice_cancel)
  show "nothing_after_cancel (trace (dispatch_due I P st))"
    using inv run by (auto simp: dispatch_due_def)
  show "\<not> cancel_seen (trace (dispatch_due I P st))"
    using inv run by (auto simp: dispatch_due_def)
  show "\<not> doExit (sched (dispatch_due I P st))"
    using run by (simp add: dispatch_due_locals)
  show "idle_slice I P (dispatch_due I P st) = (f, st')"
    using step by (simp add: loop_body_def)
qed

lemma eventLoop_while_cancel:
  "nothing_after_cancel (trace (outcome_state (eventLoop_while fuel I P (eventLoop_init s w))))
   \<and> (cancel_seen (trace (outcome_state (eventLoop_while fuel I P (eventLoop_init s w))))
        \<longrightarrow> doExit (sched (outcome_state (eventLoop_while fuel I P (eventLoop_init s w)))))"
proof (rule eventLoop_while_rule [where Inv = "\<lambda>st. nothing_after_cancel (trace st) \<and> (cancel_seen (trace st) \<longrightarrow> doExit (sched st))"])
  show "nothing_after_cancel (trace (eventLoop_init s w)) \<and>
    (cancel_seen (trace (eventLoop_init s w)) \<longrightarrow> doExit (sched (eventLoop_init s w)))"
    by (simp add: eventLoop_init_def)
next
  fix st st' :: "('a, 'b) LoopState"
  assume "nothing_after_cancel (trace st) \<and> (cancel_seen (trace st) \<longrightarrow> doExit (sched st))"
    "\<not> doExit (sched st)" "loop_body I P st = (Continue, st')"
  then show "nothing_after_cancel (trace st') \<and> (cancel_seen (trace st') \<longrightarrow> doExit (sched st'))"
    by (rule loop_body_cancel)
next
  fix st st' :: "('a, 'b) LoopState"
  assume "nothing_after_cancel (trace st) \<and> (cancel_seen (trace st) \<longrightarrow> doExit (sched st))"
    "\<not> doExit (sched st)" "loop_body I P st = (Break, st')"
  then show "nothing_after_cancel (trace st') \<and> (cancel_seen (trace st') \<longrightarrow> doExit (sched st'))"
    by (rule loop_body_cancel)
qed simp

lemma out_of_fuel_running:
  "eventLoop_while fuel I P st = OutOfFuel st' \<Longrightarrow> \<not> doExit (sched st')"
proof (induction fuel arbitrary: st)
  case 0
  then show ?case by (auto split: if_splits)
next
  case (Suc fuel)
  then show ?case by (auto split: if_splits prod.splits flow.splits)
qed

lemma cancelled_run_returns:
  assumes "cancel_seen (trace (outcome_state (eventLoop fuel I P s w)))"
  shows "has_returned (eventLoop fuel I P s w)"
proof (cases "eventLoop_while fuel I P (eventLoop_init s w)")
  case (Returned st)
  then show ?thesis by (simp add: eventLoop_def)
next
  case (OutOfFuel st)
  then have "\<not> doExit (sched st)" by (rule out_of_fuel_running)
  moreover have "cancel_seen (trace st)"
    using assms OutOfFuel by (simp add: eventLoop_def)
  ultimately show ?thesis
    using eventLoop_while_cancel [of fuel I P s w] OutOfFuel by simp
qed

subsection \<open>Counting in scripted runs\<close>

lemma count_true_map_snd: "count_true ic = length (filter (\<lambda>b. b) (map snd ic))"
  by (simp add: count_true_def filter_map comp_def)

lemma count_skip_one: "length (filter (\<lambda>j. j \<noteq> a) [0..<n]) = (if a < n then n - 1 else n)"
  by (induction n) (auto simp: less_Suc_eq)

lemma scripted_count:
  assumes "map snd ic = rev (map f [0..<n])"
  shows "count_true (drop k ic) = length (filter f [0..<n - k])"
proof -
  have "map snd (drop k ic) = drop k (map snd ic)"
    by (simp add: drop_map)
  also have "\<dots> = drop k (rev (map f [0..<n]))"
    by (simp only: assms)
  also have "\<dots> = rev (take (n - k) (map f [0..<n]))"
    by (simp add: drop_rev)
  also have "take (n - k) (map f [0..<n]) = map f [0..<n - k]"
    by (simp add: take_map)
  finally have m: "map snd (drop k ic) = rev (map f [0..<n - k])" .
  have "length (filter (\<lambda>b. b) (rev (map f [0..<n - k]))) = length (filter (\<lambda>b. b) (map f [0..<n - k]))"
    by (simp only: rev_filter [symmetric] length_rev)
  also have "\<dots> = length (filter f [0..<n - k])"
    by (simp add: filter_map comp_def)
  finally show ?thesis
    by (simp only: count_true_map_snd m)
qed

subsection \<open>Windows of idle slices\<close>

lemma count_true_append: "count_true (xs @ ys) = count_true xs + count_true ys"
  by (simp add: count_true_def)

lemma count_true_all: "\<forall>x\<in>set xs. snd x \<Longrightarrow> count_true xs = length xs"
  by (induction xs) (auto simp: count_true_def)

lemma count_true_take_drop: "count_true xs = count_true (take m xs) + count_true (drop m xs)"
  using count_true_append [of "take m xs" "drop m xs"] by simp

lemma div_2048_Suc: "Suc m div 2048 = m div 2048 + (if 2048 dvd Suc m then 1 else 0)"
  by (simp add: div_Suc dvd_eq_mod_eq_0)

lemma div_2048_gap:
  assumes "(c::nat) div 2048 = (c + 2047) div 2048"
  shows "2048 dvd c"
proof (rule ccontr)
  assume nd: "\<not> 2048 dvd c"
  define q where "q = c div 2048"
  define r where "r = c mod 2048"
  have r: "1 \<le> r" using nd by (simp add: r_def dvd_eq_mod_eq_0)
  have c: "c = 2048 * q + r" by (simp add: q_def r_def)
  have "2048 * (q + 1) \<le> c + 2047" using r by (subst c) simp
  then have "(2048 * (q + 1)) div 2048 \<le> (c + 2047) div 2048"
    by (rule div_le_mono)
  then have "q + 1 \<le> (c + 2047) div 2048" by simp
  then show False using assms by (simp add: q_def)
qed

lemma interval_after_busy:
  assumes "xs \<noteq> []" "snd (hd xs)"
  shows "interval_after xs = (if 2048 dvd count_true xs then OnIdleCpuIntervalWide else OnIdleCpuIntervalShort)"
  using assms by (cases xs) (auto split: prod.splits)

lemma wide_count:
  assumes "intervals_follow xs" "n < length xs" "\<forall>x\<in>set (take n (tl xs)). snd x"
  shows "length (filter is_wide (take n xs)) + count_true (drop (Suc n) xs) div 2048
         = (count_true (drop (Suc n) xs) + n) div 2048"
  using assms
proof (induction n arbitrary: xs)
  case 0
  then show ?case by simp
next
  case (Suc n)
  then obtain iv b xs' where xs: "xs = (iv, b) # xs'" by (cases xs) auto
  let ?c = "count_true (drop (Suc n) xs')"
  have len: "n < length xs'" using Suc.prems xs by simp
  have all: "\<forall>x\<in>set (take (Suc n) xs'). snd x" using Suc.prems xs by simp
  have "set (take n (tl xs')) \<subseteq> set (take (Suc n) xs')"
    by (cases xs') auto
  then have all': "\<forall>x\<in>set (take n (tl xs')). snd x" using all by blast
  have follow: "intervals_follow xs'" and iv: "iv = interval_after xs'"
    using Suc.prems xs by simp_all
  have IH: "length (filter is_wide (take n xs')) + ?c div 2048 = (?c + n) div 2048"
    using Suc.IH [OF follow len all'] .
  have ne: "xs' \<noteq> []" using len by auto
  have hd: "snd (hd xs')" using all ne by (cases xs') simp_all
  have "count_true (take (Suc n) xs') = Suc n"
    using count_true_all [OF all] len by simp
  then have cnt: "count_true xs' = Suc (?c + n)"
    using count_true_take_drop [of xs' "Suc n"] by simp
  have wide: "is_wide (iv, b) \<longleftrightarrow> 2048 dvd Suc (?c + n)"
    using interval_after_busy [OF ne hd] iv cnt by (simp add: is_wide_def)
  have "length (filter is_wide (take (Suc (Suc n)) xs)) =
        (if 2048 dvd Suc (?c + n) then 1 else 0) + length (filter is_wide (take (Suc n) xs'))"
    using wide xs by simp
  show ?case
  proof -
    have t: "take (Suc n) xs = (iv, b) # take n xs'" using xs by simp
    have d: "drop (Suc (Suc n)) xs = drop (Suc n) xs'" using xs by simp
    show ?thesis
      unfolding t d using IH wide div_2048_Suc [of "?c + n"] by simp
  qed
qed

lemma intervals_follow_drop: "intervals_follow xs \<Longrightarrow> intervals_follow (drop i xs)"
proof (induction xs arbitrary: i)
  case Nil
  then show ?case by simp
next
  case (Cons x xs)
  then show ?case by (cases i; cases x) simp_all
qed

lemma no_short_window_head:
  assumes follow: "intervals_follow xs"
  shows "take 2048 xs \<noteq> replicate 2048 (OnIdleCpuIntervalShort, True)"
proof
  assume eq: "take 2048 xs = replicate 2048 (OnIdleCpuIntervalShort, True)"
  let ?c = "count_true (drop 2048 xs)"
  have len: "2048 \<le> length xs"
  proof (rule ccontr)
    assume "\<not> 2048 \<le> length xs"
    then have "length (take 2048 xs) < 2048" by simp
    then show False using eq by simp
  qed
  have t47: "take 2047 xs = replicate 2047 (OnIdleCpuIntervalShort, True)"
  proof -
    have "take 2047 xs = take 2047 (take 2048 xs)" by simp
    also have "\<dots> = replicate 2047 (OnIdleCpuIntervalShort, True)" unfolding eq by simp
    finally show ?thesis .
  qed
  have tl47: "take 2047 (tl xs) = replicate 2047 (OnIdleCpuIntervalShort, True)"
  proof -
    have "take 2047 (tl xs) = tl (take 2048 xs)" by (simp add: tl_take)
    also have "\<dots> = replicate 2047 (OnIdleCpuIntervalShort, True)" unfolding eq by simp
    finally show ?thesis .
  qed
  have "length (filter is_wide (take 2047 xs)) + ?c div 2048 = (?c + 2047) div 2048"
    using wide_count [OF follow, of 2047] len tl47 by simp
  moreover have "length (filter is_wide (take 2047 xs)) = 0"
    unfolding t47 by (simp add: is_wide_def)
  ultimately have dvd: "2048 dvd ?c" using div_2048_gap [of ?c] by simp
  have nth: "xs ! 2047 = (OnIdleCpuIntervalShort, True)"
  proof -
    have "xs ! 2047 = take 2048 xs ! 2047" by simp
    then show ?thesis unfolding eq by simp
  qed
  have "drop 2047 xs = xs ! 2047 # drop 2048 xs"
    using len Cons_nth_drop_Suc [of 2047 xs] by simp
  then have "intervals_follow ((OnIdleCpuIntervalShort, True) # drop 2048 xs)"
    using intervals_follow_drop [OF follow, of 2047] nth by simp
  then have short: "interval_after (drop 2048 xs) = OnIdleCpuIntervalShort" by simp
  show False
  proof (cases "drop 2048 xs")
    case Nil
    then show ?thesis using short by simp
  next
    case (Cons y ys)
    then show ?thesis using short dvd by (cases y) (auto split: if_splits)
  qed
qed

lemma one_wide_window_head:
  assumes "intervals_follow xs" "2048 < length xs" "\<forall>x\<in>set (take 2048 (tl xs)). snd x"
  shows "length (filter is_wide (take 2048 xs)) = 1"
proof -
  have "length (filter is_wide (take 2048 xs)) + count_true (drop (Suc 2048) xs) div 2048
         = (count_true (drop (Suc 2048) xs) + 2048) div 2048"
    using wide_count [OF assms(1), of 2048] assms(2,3) by simp
  then show ?thesis by simp
qed

lemma few_wide_window_head:
  assumes "intervals_follow xs" "n < length xs" "n \<le> 2048" "\<forall>x\<in>set (take n (tl xs)). snd x"
  shows "length (filter is_wide (take n xs)) \<le> 1"
proof -
  let ?c = "count_true (drop (Suc n) xs)"
  have "length (filter is_wide (take n xs)) + ?c div 2048 = (?c + n) div 2048"
    using wide_count [OF assms(1,2,4)] .
  moreover have "(?c + n) div 2048 \<le> (?c + 2048) div 2048"
    using assms(3) by (intro div_le_mono) simp
  ultimately show ?thesis by simp
qed

subsection \<open>Scripted runs\<close>

lemma scripted_body:
  assumes "nextEvent (sched st) = NullEvent" "\<not> doExit (sched st)"
  shows "\<exists>st'. loop_body (I_scripted f) P_still st = (Continue, st')
     \<and> world st' = Suc (world st) \<and> nextEvent (sched st') = NullEvent \<and> \<not> doExit (sched st')
     \<and> map snd (idle_calls (trace st')) = f (world st) # map snd (idle_calls (trace st))"
  using assms
  by (simp add: loop_body_def dispatch_due_def isNull_def idle_slice_def I_scripted_def P_still_def
        Let_def sleepUntilEvent_def)

lemma scripted_run:
  assumes "nextEvent (sched st) = NullEvent" "\<not> doExit (sched st)"
  shows "\<exists>st'. eventLoop_while n (I_scripted f) P_still st = OutOfFuel st'
     \<and> map snd (idle_calls (trace st')) = rev (map f [world st..<world st + n]) @ map snd (idle_calls (trace st))"
  using assms
proof (induction n arbitrary: st)
  case 0
  then show ?case by simp
next
  case (Suc n)
  obtain st1 where b: "loop_body (I_scripted f) P_still st = (Continue, st1)"
    and w: "world st1 = Suc (world st)" and ne: "nextEvent (sched st1) = NullEvent"
    and nx: "\<not> doExit (sched st1)"
    and r: "map snd (idle_calls (trace st1)) = f (world st) # map snd (idle_calls (trace st))"
    using scripted_body [OF Suc.prems, of f] by (elim exE conjE) simp
  obtain st' where run: "eventLoop_while n (I_scripted f) P_still st1 = OutOfFuel st'"
    and r': "map snd (idle_calls (trace st')) = rev (map f [world st1..<world st1 + n]) @ map snd (idle_calls (trace st1))"
    using Suc.IH [OF ne nx] by (elim exE conjE) simp
  have "[world st..<world st + Suc n] = world st # [Suc (world st)..<Suc (world st) + n]"
    by (simp add: upt_rec)
  then show ?case
    using Suc.prems b run r r' w by simp
qed

lemma scripted_results:
  "map snd (idle_calls (trace (outcome_state (eventLoop n (I_scripted f) P_still (Scheduler_new ms) 0))))
     = rev (map f [0..<n])"
proof -
  have "nextEvent (sched (eventLoop_init (Scheduler_new ms) (0::nat))) = (NullEvent :: nat OutputEvent)"
    and "\<not> doExit (sched (eventLoop_init (Scheduler_new ms :: nat Scheduler) (0::nat)))"
    by (simp_all add: eventLoop_init_def Scheduler_new_def setDefaultMaxSleep_def setMaxSleep_def OutputEvent_default_def)
  from scripted_run [OF this, of n f] show ?thesis
    by (auto simp: eventLoop_fields eventLoop_init_def)
qed

lemma intervals_follow_Cons: "intervals_follow (x # xs) \<longleftrightarrow> fst x = interval_after xs \<and> intervals_follow xs"
  by (cases x) simp

lemma eventLoop_counting:
  "counting (outcome_state (eventLoop fuel I P s w))"
  using eventLoop_while_counting [OF counting_head_init, of fuel I P s w]
  by (simp add: counting_def eventLoop_fields)

lemma eventLoop_interval_after_busy:
  assumes "idle_calls (trace (outcome_state (eventLoop fuel I P s w))) = (iv, True) # older"
  shows "intervalT (outcome_state (eventLoop fuel I P s w))
     = interval_after (idle_calls (trace (outcome_state (eventLoop fuel I P s w))))"
  using eventLoop_while_counting [OF counting_head_init, of fuel I P s w] assms
  by (simp add: eventLoop_fields)

lemma scripted_nth:
  assumes "map snd ic = rev (map f [0..<n])" "k < n"
  shows "snd (ic ! k) = f (n - Suc k)"
proof -
  have len: "length ic = n" using arg_cong [OF assms(1), of length] by simp
  have "snd (ic ! k) = map snd ic ! k" using len assms(2) by simp
  also have "\<dots> = rev (map f [0..<n]) ! k" by (simp only: assms(1))
  also have "\<dots> = f (n - Suc k)" using assms(2) by (simp add: rev_nth)
  finally show ?thesis .
qed

lemma burst_of_one_promoted:
  "\<exists>older. idle_calls (trace (outcome_state
       (eventLoop 2050 (I_scripted (\<lambda>j. j \<noteq> 2047)) P_still (Scheduler_new 1) 0)))
     = (OnIdleCpuIntervalWide, True) # (OnIdleCpuIntervalWide, True)
       # (OnIdleCpuIntervalShort, False) # older"
proof -
  define f where "f = (\<lambda>j::nat. j \<noteq> 2047)"
  define ic where "ic = idle_calls (trace (outcome_state
       (eventLoop 2050 (I_scripted f) P_still (Scheduler_new 1) 0)))"
  have m: "map snd ic = rev (map f [0..<2050])"
    unfolding ic_def by (rule scripted_results)
  have len: "length ic = 2050" using arg_cong [OF m, of length] by simp
  have follow: "intervals_follow ic"
    using eventLoop_counting [of 2050 "I_scripted f" P_still "Scheduler_new 1" 0]
    by (simp add: counting_def ic_def)
  obtain a xs1 where ic: "ic = a # xs1" using len by (cases ic) auto
  then have l1: "length xs1 = 2049" using len by simp
  obtain b xs2 where xs1: "xs1 = b # xs2" using l1 by (cases xs1) auto
  then have l2: "length xs2 = 2048" using l1 by simp
  obtain c xs3 where xs2: "xs2 = c # xs3" using l2 by (cases xs2) auto
  then have l3: "length xs3 = 2047" using l2 by simp
  obtain e xs4 where xs3: "xs3 = e # xs4" using l3 by (cases xs3) auto
  have sa: "snd a" using scripted_nth [OF m, of 0] by (simp add: ic f_def)
  have sb: "snd b" using scripted_nth [OF m, of 1] by (simp add: ic xs1 f_def)
  have sc: "\<not> snd c" using scripted_nth [OF m, of 2] by (simp add: ic xs1 xs2 f_def)
  have se: "snd e" using scripted_nth [OF m, of 3] by (simp add: ic xs1 xs2 xs3 f_def)
  have c1: "count_true xs1 = 2048"
    using scripted_count [OF m, of 1] by (simp add: ic f_def count_skip_one)
  have c3: "count_true xs3 = 2047"
    using scripted_count [OF m, of 3] by (simp add: ic xs1 xs2 f_def count_skip_one)
  have fa: "fst a = interval_after xs1" and fb: "fst b = interval_after xs2"
    and fc: "fst c = interval_after xs3"
    using follow by (simp_all add: ic xs1 xs2 intervals_follow_Cons)
  have "interval_after xs1 = OnIdleCpuIntervalWide"
    using interval_after_busy [of xs1] sb c1 by (simp add: xs1)
  then have a: "a = (OnIdleCpuIntervalWide, True)" using fa sa by (cases a) simp
  have "interval_after xs2 = OnIdleCpuIntervalWide"
    using sc by (cases c) (simp add: xs2)
  then have b: "b = (OnIdleCpuIntervalWide, True)" using fb sb by (cases b) simp
  have "interval_after xs3 = OnIdleCpuIntervalShort"
    using interval_after_busy [of xs3] se c3 by (simp add: xs3)
  then have c: "c = (OnIdleCpuIntervalShort, False)" using fc sc by (cases c) simp
  have "ic = (OnIdleCpuIntervalWide, True) # (OnIdleCpuIntervalWide, True)
       # (OnIdleCpuIntervalShort, False) # xs3"
    by (simp add: ic xs1 xs2 a b c)
  then show ?thesis unfolding ic_def f_def by blast
qed

section \<open>The claims\<close>

text \<open>
  C1 (no early dispatch). Every call of \<^verbatim>\<open>interface.queue\<close> that a run of the loop has
  made, whether the run has returned or is still going, was made on an event that is
  not null and whose deadline \<^verbatim>\<open>schedTime(evt.time())\<close> had been reached on the clock of
  the world it was called in. In an iteration that finds the deadline of the pending
  event in the future, the dispatch step does nothing.
\<close>

theorem no_early_dispatch:
  "list_all (dispatch_on_time I P) (trace (outcome_state (eventLoop fuel I P s w)))
   \<and> (now P (world st) < schedTime I (time (nextEvent (sched st))) (world st)
        \<longrightarrow> dispatch_due I P st = st)"
proof
  show "list_all (dispatch_on_time I P) (trace (outcome_state (eventLoop fuel I P s w)))"
    unfolding eventLoop_fields
  proof (rule eventLoop_while_rule [where Inv = "\<lambda>st. list_all (dispatch_on_time I P) (trace st)"])
    show "list_all (dispatch_on_time I P) (trace (eventLoop_init s w))"
      by (simp add: eventLoop_init_def)
  next
    fix st st' :: "('a, 'b) LoopState"
    assume inv: "list_all (dispatch_on_time I P) (trace st)"
    have d: "list_all (dispatch_on_time I P) (trace (dispatch_due I P st))"
      using dispatch_due_cases [of I P st] inv by auto
    { assume "loop_body I P st = (Continue, st')"
      then show "list_all (dispatch_on_time I P) (trace st')"
        using d idle_slice_trace [of I P "dispatch_due I P st" Continue st']
        by (auto simp: loop_body_def) }
    { assume "loop_body I P st = (Break, st')"
      then show "list_all (dispatch_on_time I P) (trace st')"
        using d idle_slice_trace [of I P "dispatch_due I P st" Break st']
        by (auto simp: loop_body_def) }
  qed simp
  show "now P (world st) < schedTime I (time (nextEvent (sched st))) (world st)
        \<longrightarrow> dispatch_due I P st = st"
    by (simp add: dispatch_due_def isEventTime_def)
qed

theorem no_early_dispatch_witness:
  "now P_demo (world (st_demo 10 3))
     < schedTime I_demo (time (nextEvent (sched (st_demo 10 3)))) (world (st_demo 10 3))
   \<and> dispatch_due I_demo P_demo (st_demo 10 3) = st_demo 10 3
   \<and> list_all (dispatch_on_time I_demo P_demo)
        (trace (outcome_state (eventLoop 9 I_demo P_demo (Scheduler_new 1) 0)))
   \<and> ActQueue (Event 6 0) 6 \<in> set (trace (outcome_state (eventLoop 9 I_demo P_demo (Scheduler_new 1) 0)))"
proof -
  have h: "now P_demo (world (st_demo 10 3))
     < schedTime I_demo (time (nextEvent (sched (st_demo 10 3)))) (world (st_demo 10 3))"
    by (simp add: st_demo_def eventLoop_init_def queue_def P_demo_def I_demo_def)
  have r: "ActQueue (Event 6 0) 6 \<in> set (trace (outcome_state (eventLoop 9 I_demo P_demo (Scheduler_new 1) 0)))"
    by code_simp
  from no_early_dispatch [of I_demo P_demo 9 "Scheduler_new 1" 0 "st_demo 10 3"] h r
  show ?thesis by blast
qed

text \<open>
  C2 (single-slot invariant). In the state any run of the loop has reached,
  \<^verbatim>\<open>isRoomInBuffer()\<close> is true exactly when the slot holds the null event, and the slot
  holds the event that was offered last and not dispatched since: so there is room
  exactly when no event is pending. Straight after an offer there is room only if the
  event offered was the null event.
\<close>

theorem single_slot_invariant:
  "(isRoomInBuffer (sched (outcome_state (eventLoop fuel I P s w)))
      \<longleftrightarrow> nextEvent (sched (outcome_state (eventLoop fuel I P s w))) = OutputEvent_default)
   \<and> nextEvent (sched (outcome_state (eventLoop fuel I P s w)))
       = pending_after (nextEvent s) (trace (outcome_state (eventLoop fuel I P s w)))
   \<and> (isRoomInBuffer (sched (outcome_state (eventLoop fuel I P s w)))
      \<longleftrightarrow> isNull (pending_after (nextEvent s) (trace (outcome_state (eventLoop fuel I P s w)))))
   \<and> (isRoomInBuffer (queue evt s') \<longleftrightarrow> isNull evt)"
  using slot_is_pending [of fuel I P s w]
  by (simp add: isRoomInBuffer_def isNull_iff queue_def)

theorem single_slot_invariant_witness:
  "\<not> isRoomInBuffer (sched (outcome_state (eventLoop 3 I_demo P_demo (Scheduler_new 1) 0)))
   \<and> nextEvent (sched (outcome_state (eventLoop 3 I_demo P_demo (Scheduler_new 1) 0))) = Event 6 0
   \<and> \<not> isRoomInBuffer (queue (Event 6 (0::nat)) (Scheduler_new 1))"
proof -
  have a: "pending_after (nextEvent (Scheduler_new 1))
        (trace (outcome_state (eventLoop 3 I_demo P_demo (Scheduler_new 1) 0))) = Event 6 (0::nat)"
    by code_simp
  have n: "\<not> isNull (Event 6 (0::nat))"
    by (simp add: isNull_def)
  from single_slot_invariant [of 3 I_demo P_demo "Scheduler_new 1" 0 "Event 6 0" "Scheduler_new 1"] a n
  show ?thesis by auto
qed

text \<open>
  C3 (sleep deadline). \<^verbatim>\<open>sleepUntilEvent\<close> sleeps until \<open>now + MAX_SLEEP\<close> when it is
  given the null event and until the smaller of \<open>now + MAX_SLEEP\<close> and
  \<^verbatim>\<open>schedTime(evt.time())\<close> otherwise, hence never past \<open>now + MAX_SLEEP\<close>. Whenever the
  idle slice has returned false and left the exit flag unset, the iteration goes on
  with exactly this sleep, on the pending event and the sleep ceiling the idle slice
  left behind.
\<close>

theorem sleep_deadline:
  "sleepUntil_of I P s w evt =
     (if isNull evt then now P w + MAX_SLEEP s
      else min (now P w + MAX_SLEEP s) (schedTime I (time evt) w))
   \<and> sleepUntil_of I P s w evt \<le> now P w + MAX_SLEEP s
   \<and> sleepUntilEvent I P s w evt = sleep_until P (sleepUntil_of I P s w evt) w
   \<and> (onIdleCpu I (intervalT st) (sched st) (world st) = (False, calls, w')
        \<and> \<not> doExit (apply_calls calls (sched st)) \<longrightarrow>
      idle_slice I P st =
        (Continue,
         st\<lparr>sched := apply_calls calls (sched st),
            world := sleep_until P (sleepUntil_of I P (apply_calls calls (sched st)) w'
                       (nextEvent (apply_calls calls (sched st)))) w',
            trace := ActSleep (sleepUntil_of I P (apply_calls calls (sched st)) w'
                       (nextEvent (apply_calls calls (sched st))))
                     # ActOnIdleCpu (intervalT st) False calls # trace st,
            intervalT := OnIdleCpuIntervalWide\<rparr>))"
proof (intro conjI impI)
  show "sleepUntil_of I P s w evt =
     (if isNull evt then now P w + MAX_SLEEP s
      else min (now P w + MAX_SLEEP s) (schedTime I (time evt) w))"
    by (simp add: sleepUntil_of_def Let_def min_def)
  show "sleepUntil_of I P s w evt \<le> now P w + MAX_SLEEP s"
    by (simp add: sleepUntil_of_def Let_def)
  show "sleepUntilEvent I P s w evt = sleep_until P (sleepUntil_of I P s w evt) w"
    by (simp add: sleepUntilEvent_def)
next
  assume "onIdleCpu I (intervalT st) (sched st) (world st) = (False, calls, w')
        \<and> \<not> doExit (apply_calls calls (sched st))"
  then show "idle_slice I P st =
        (Continue,
         st\<lparr>sched := apply_calls calls (sched st),
            world := sleep_until P (sleepUntil_of I P (apply_calls calls (sched st)) w'
                       (nextEvent (apply_calls calls (sched st)))) w',
            trace := ActSleep (sleepUntil_of I P (apply_calls calls (sched st)) w'
                       (nextEvent (apply_calls calls (sched st))))
                     # ActOnIdleCpu (intervalT st) False calls # trace st,
            intervalT := OnIdleCpuIntervalWide\<rparr>)"
    using idle_slice_sleep [of I st calls w' P] by simp
qed

theorem sleep_deadline_witness:
  "(onIdleCpu I_demo (intervalT (st_demo 10 5)) (sched (st_demo 10 5)) (world (st_demo 10 5))
      = (False, [], 6)
    \<and> \<not> doExit (apply_calls [] (sched (st_demo 10 5))))
   \<and> idle_slice I_demo P_demo (st_demo 10 5) =
        (Continue,
         (st_demo 10 5)\<lparr>sched := apply_calls [] (sched (st_demo 10 5)),
            world := sleep_until P_demo (sleepUntil_of I_demo P_demo (apply_calls [] (sched (st_demo 10 5))) 6
                       (nextEvent (apply_calls [] (sched (st_demo 10 5))))) 6,
            trace := ActSleep (sleepUntil_of I_demo P_demo (apply_calls [] (sched (st_demo 10 5))) 6
                       (nextEvent (apply_calls [] (sched (st_demo 10 5)))))
                     # ActOnIdleCpu (intervalT (st_demo 10 5)) False [] # trace (st_demo 10 5),
            intervalT := OnIdleCpuIntervalWide\<rparr>)
   \<and> sleepUntil_of I_demo P_demo (apply_calls [] (sched (st_demo 10 5))) 6
        (nextEvent (apply_calls [] (sched (st_demo 10 5)))) = 10
   \<and> sleepUntil_of I_demo P_demo (Scheduler_new 1) 6 (Event 100 0) = 46
   \<and> sleepUntil_of I_demo P_demo (Scheduler_new 1) 6 NullEvent = 46"
proof -
  have h: "onIdleCpu I_demo (intervalT (st_demo 10 5)) (sched (st_demo 10 5)) (world (st_demo 10 5))
      = (False, [], 6)
    \<and> \<not> doExit (apply_calls [] (sched (st_demo 10 5)))"
    by (simp add: st_demo_def eventLoop_init_def I_demo_def queue_def Scheduler_new_def
        setDefaultMaxSleep_def setMaxSleep_def)
  have e: "sleepUntil_of I_demo P_demo (apply_calls [] (sched (st_demo 10 5))) 6
        (nextEvent (apply_calls [] (sched (st_demo 10 5)))) = 10"
    "sleepUntil_of I_demo P_demo (Scheduler_new 1) 6 (Event 100 0) = 46"
    "sleepUntil_of I_demo P_demo (Scheduler_new 1) 6 NullEvent = 46"
    by code_simp+
  from sleep_deadline [of I_demo P_demo "apply_calls [] (sched (st_demo 10 5))" 6
      "nextEvent (apply_calls [] (sched (st_demo 10 5)))" "st_demo 10 5" "[]" 6] h e
  show ?thesis by blast
qed

text \<open>
  C4 (fairness bound). Among the idle slices of any run of the loop, no 2048
  consecutive ones were all given the short interval class and all returned true.
  Moreover, while the slices keep returning true the class stays short except once
  in 2048: after any 2048 consecutive slices that returned true, the interval class
  chosen after each of them was short except exactly once, when it was wide, and
  after any shorter row of true results it was wide at most once. (The list of idle
  slices is newest first: the class chosen after the slice at position \<open>i + 1\<close> is the
  one given to the slice at position \<open>i\<close>. Which of the 2048 true results is followed
  by the wide class depends on the number of true results since the loop started.)
\<close>

theorem fairness_bound:
  "take 2048 (drop i (idle_calls (trace (outcome_state (eventLoop fuel I P s w)))))
     \<noteq> replicate 2048 (OnIdleCpuIntervalShort, True)
   \<and> (i + 2048 < length (idle_calls (trace (outcome_state (eventLoop fuel I P s w))))
       \<and> list_all snd (take 2048 (drop (Suc i)
               (idle_calls (trace (outcome_state (eventLoop fuel I P s w))))))
      \<longrightarrow> length (filter is_wide (take 2048 (drop i
               (idle_calls (trace (outcome_state (eventLoop fuel I P s w))))))) = 1)
   \<and> (i + n < length (idle_calls (trace (outcome_state (eventLoop fuel I P s w))))
       \<and> n \<le> 2048
       \<and> list_all snd (take n (drop (Suc i)
               (idle_calls (trace (outcome_state (eventLoop fuel I P s w))))))
      \<longrightarrow> length (filter is_wide (take n (drop i
               (idle_calls (trace (outcome_state (eventLoop fuel I P s w))))))) \<le> 1)"
proof -
  define ic where "ic = idle_calls (trace (outcome_state (eventLoop fuel I P s w)))"
  have "intervals_follow ic"
    using eventLoop_counting [of fuel I P s w] by (simp add: counting_def ic_def)
  then have follow: "intervals_follow (drop i ic)"
    by (rule intervals_follow_drop)
  have a: "take 2048 (drop i ic) \<noteq> replicate 2048 (OnIdleCpuIntervalShort, True)"
    using follow by (rule no_short_window_head)
  have b: "length (filter is_wide (take 2048 (drop i ic))) = 1"
    if "i + 2048 < length ic" and "list_all snd (take 2048 (drop (Suc i) ic))"
  proof (rule one_wide_window_head [OF follow])
    show "2048 < length (drop i ic)" using that(1) by simp
    show "\<forall>c\<in>set (take 2048 (tl (drop i ic))). snd c"
      using that(2) by (simp add: drop_Suc tl_drop list_all_iff)
  qed
  have c: "length (filter is_wide (take n (drop i ic))) \<le> 1"
    if "i + n < length ic" and "n \<le> 2048" and "list_all snd (take n (drop (Suc i) ic))"
  proof (rule few_wide_window_head [OF follow])
    show "n < length (drop i ic)" using that(1) by simp
    show "n \<le> 2048" by fact
    show "\<forall>c\<in>set (take n (tl (drop i ic))). snd c"
      using that(3) by (simp add: drop_Suc tl_drop list_all_iff)
  qed
  from a b c show ?thesis unfolding ic_def by blast
qed

theorem fairness_bound_witness:
  "(0 + 2048 < length (idle_calls (trace (outcome_state
        (eventLoop 2049 (I_scripted (\<lambda>j. True)) P_still (Scheduler_new 1) 0))))
    \<and> list_all snd (take 2048 (drop (Suc 0) (idle_calls (trace (outcome_state
        (eventLoop 2049 (I_scripted (\<lambda>j. True)) P_still (Scheduler_new 1) 0)))))))
   \<and> (0 + 7 < length (idle_calls (trace (outcome_state
        (eventLoop 2049 (I_scripted (\<lambda>j. True)) P_still (Scheduler_new 1) 0))))
    \<and> (7::nat) \<le> 2048
    \<and> list_all snd (take 7 (drop (Suc 0) (idle_calls (trace (outcome_state
        (eventLoop 2049 (I_scripted (\<lambda>j. True)) P_still (Scheduler_new 1) 0)))))))
   \<and> take 2048 (drop 0 (idle_calls (trace (outcome_state
        (eventLoop 2049 (I_scripted (\<lambda>j. True)) P_still (Scheduler_new 1) 0)))))
       \<noteq> replicate 2048 (OnIdleCpuIntervalShort, True)
   \<and> length (filter is_wide (take 2048 (drop 0 (idle_calls (trace (outcome_state
        (eventLoop 2049 (I_scripted (\<lambda>j. True)) P_still (Scheduler_new 1) 0))))))) = 1
   \<and> length (filter is_wide (take 7 (drop 0 (idle_calls (trace (outcome_state
        (eventLoop 2049 (I_scripted (\<lambda>j. True)) P_still (Scheduler_new 1) 0))))))) \<le> 1"
proof -
  define ic where "ic = idle_calls (trace (outcome_state
        (eventLoop 2049 (I_scripted (\<lambda>j. True)) P_still (Scheduler_new 1) 0)))"
  have m: "map snd ic = rev (map (\<lambda>j. True) [0..<2049])"
    unfolding ic_def by (rule scripted_results)
  have len: "length ic = 2049" using arg_cong [OF m, of length] by simp
  have "set (map snd ic) \<subseteq> {True}" unfolding m by auto
  then have all: "\<forall>c\<in>set ic. snd c" by auto
  have la: "list_all snd (take k (drop (Suc 0) ic))" for k
    unfolding list_all_iff
  proof
    fix c
    assume "c \<in> set (take k (drop (Suc 0) ic))"
    then have "c \<in> set ic" by (meson in_set_dropD in_set_takeD)
    then show "snd c" using all by blast
  qed
  have l1: "0 + 2048 < length ic" and l2: "0 + 7 < length ic" and l3: "(7::nat) \<le> 2048"
    using len by simp_all
  from fairness_bound [of 0 2049 "I_scripted (\<lambda>j. True)" P_still "Scheduler_new 1" 0 7]
    l1 l2 l3 la [of 2048] la [of 7]
  show ?thesis unfolding ic_def by blast
qed

text \<open>
  C5 (cancellation without sleeping). In any run of the loop, an idle slice that called
  \<^verbatim>\<open>exitEventLoop\<close> is the last action of the run, so no sleep follows it, and the run
  has returned. In detail: at the head of an iteration of a loop that is still
  running, if the idle slice of this iteration calls \<^verbatim>\<open>exitEventLoop\<close>, then the loop
  returns, whatever the idle slice returned and however much fuel is left; the world
  is as the idle slice left it and that slice is the last entry of the trace.
\<close>

theorem cancel_in_idle_slice:
  "nothing_after_cancel (trace (outcome_state (eventLoop fuel I P s w)))
   \<and> (cancel_seen (trace (outcome_state (eventLoop fuel I P s w)))
        \<longrightarrow> has_returned (eventLoop fuel I P s w))
   \<and> (\<not> doExit (sched st)
       \<and> onIdleCpu I (intervalT st) (sched (dispatch_due I P st)) (world (dispatch_due I P st))
           = (busy, calls, w')
       \<and> CallExitEventLoop \<in> set calls
      \<longrightarrow> (\<exists>st'. eventLoop_while (Suc fuel') I P st = Returned st'
             \<and> world st' = w'
             \<and> trace st' = ActOnIdleCpu (intervalT st) busy calls # trace (dispatch_due I P st)))"
proof (intro conjI impI)
  show "nothing_after_cancel (trace (outcome_state (eventLoop fuel I P s w)))"
    using eventLoop_while_cancel [of fuel I P s w] by (simp add: eventLoop_fields)
  show "has_returned (eventLoop fuel I P s w)"
    if "cancel_seen (trace (outcome_state (eventLoop fuel I P s w)))"
    using that by (rule cancelled_run_returns)
next
  assume a: "\<not> doExit (sched st)
       \<and> onIdleCpu I (intervalT st) (sched (dispatch_due I P st)) (world (dispatch_due I P st))
           = (busy, calls, w')
       \<and> CallExitEventLoop \<in> set calls"
  let ?d = "dispatch_due I P st"
  have o: "onIdleCpu I (intervalT ?d) (sched ?d) (world ?d) = (busy, calls, w')"
    using a by (simp add: dispatch_due_locals)
  have ex: "doExit (apply_calls calls (sched ?d))"
    using a by (simp add: doExit_apply_calls)
  show "\<exists>st'. eventLoop_while (Suc fuel') I P st = Returned st'
             \<and> world st' = w'
             \<and> trace st' = ActOnIdleCpu (intervalT st) busy calls # trace (dispatch_due I P st)"
  proof (cases busy)
    case True
    then have o': "onIdleCpu I (intervalT ?d) (sched ?d) (world ?d) = (True, calls, w')"
      using o by simp
    show ?thesis
      using a ex True idle_slice_busy [OF o', of P]
      by (simp add: loop_body_def eventLoop_while_doExit dispatch_due_locals)
  next
    case False
    then have o': "onIdleCpu I (intervalT ?d) (sched ?d) (world ?d) = (False, calls, w')"
      using o by simp
    show ?thesis
      using a False idle_slice_exit [OF o' ex, of P]
      by (simp add: loop_body_def dispatch_due_locals)
  qed
qed

theorem cancel_in_idle_slice_witness:
  "(\<not> doExit (sched (st_demo 10 7))
    \<and> onIdleCpu I_demo (intervalT (st_demo 10 7)) (sched (dispatch_due I_demo P_demo (st_demo 10 7)))
         (world (dispatch_due I_demo P_demo (st_demo 10 7))) = (False, [CallExitEventLoop], 8)
    \<and> CallExitEventLoop \<in> set [CallExitEventLoop :: nat SchedCall])
   \<and> (\<exists>st'. eventLoop_while (Suc 5) I_demo P_demo (st_demo 10 7) = Returned st'
          \<and> world st' = 8
          \<and> trace st' = ActOnIdleCpu (intervalT (st_demo 10 7)) False [CallExitEventLoop]
                         # trace (dispatch_due I_demo P_demo (st_demo 10 7)))
   \<and> cancel_seen (trace (outcome_state (eventLoop 9 I_demo P_demo (Scheduler_new 1) 0)))
   \<and> has_returned (eventLoop 9 I_demo P_demo (Scheduler_new 1) 0)"
proof -
  have h: "\<not> doExit (sched (st_demo 10 7))
    \<and> onIdleCpu I_demo (intervalT (st_demo 10 7)) (sched (dispatch_due I_demo P_demo (st_demo 10 7)))
         (world (dispatch_due I_demo P_demo (st_demo 10 7))) = (False, [CallExitEventLoop], 8)
    \<and> CallExitEventLoop \<in> set [CallExitEventLoop :: nat SchedCall]"
    by (simp add: st_demo_def eventLoop_init_def I_demo_def P_demo_def queue_def Scheduler_new_def
        setDefaultMaxSleep_def setMaxSleep_def dispatch_due_def isEventTime_def)
  have c: "cancel_seen (trace (outcome_state (eventLoop 9 I_demo P_demo (Scheduler_new 1) 0)))"
    by code_simp
  from cancel_in_idle_slice [of 9 I_demo P_demo "Scheduler_new 1" 0 "st_demo 10 7" False
      "[CallExitEventLoop]" 8 5] h c
  show ?thesis by blast
qed

text \<open>
  C6 (silent overwrite on double offer). \<^verbatim>\<open>queue(evt)\<close> stores \<open>evt\<close> in the slot
  whatever the slot held and changes nothing else: a second offer replaces the first,
  the result is the state a single offer of the second event gives, and \<^verbatim>\<open>MAX_SLEEP\<close>
  and the exit flag are as before. The function returns nothing and cannot fail.
\<close>

theorem queue_overwrites:
  "queue evt s = s\<lparr>nextEvent := evt\<rparr>
   \<and> nextEvent (queue evt2 (queue evt1 s)) = evt2
   \<and> queue evt2 (queue evt1 s) = queue evt2 s
   \<and> MAX_SLEEP (queue evt s) = MAX_SLEEP s
   \<and> doExit (queue evt s) = doExit s"
  by (simp add: queue_def)

text \<open>
  C7 (dispatch clears the slot). In an iteration that finds the slot not empty and the
  deadline of its event reached, the dispatch step calls \<^verbatim>\<open>interface.queue\<close> on that
  event and then puts the null event in the slot; the idle slice of the same iteration
  runs on the state this leaves, in which \<^verbatim>\<open>isRoomInBuffer()\<close> is true.
\<close>

theorem dispatch_clears_slot:
  "\<not> isNull (nextEvent (sched st))
   \<and> schedTime I (time (nextEvent (sched st))) (world st) \<le> now P (world st)
   \<longrightarrow> dispatch_due I P st =
         st\<lparr>world := iface_queue I (nextEvent (sched st)) (world st),
            trace := ActQueue (nextEvent (sched st)) (world st) # trace st,
            sched := (sched st)\<lparr>nextEvent := OutputEvent_default\<rparr>\<rparr>
       \<and> isRoomInBuffer (sched (dispatch_due I P st))
       \<and> loop_body I P st = idle_slice I P (dispatch_due I P st)"
  by (simp add: dispatch_due_def isEventTime_def isRoomInBuffer_def isNull_def
      OutputEvent_default_def loop_body_def)

theorem dispatch_clears_slot_witness:
  "(\<not> isNull (nextEvent (sched (st_demo 2 3)))
    \<and> schedTime I_demo (time (nextEvent (sched (st_demo 2 3)))) (world (st_demo 2 3))
        \<le> now P_demo (world (st_demo 2 3)))
   \<and> isRoomInBuffer (sched (dispatch_due I_demo P_demo (st_demo 2 3)))
   \<and> trace (dispatch_due I_demo P_demo (st_demo 2 3)) = [ActQueue (Event 2 0) 3]
   \<and> \<not> isRoomInBuffer (sched (st_demo 2 3))"
proof -
  have h: "\<not> isNull (nextEvent (sched (st_demo 2 3)))
    \<and> schedTime I_demo (time (nextEvent (sched (st_demo 2 3)))) (world (st_demo 2 3))
        \<le> now P_demo (world (st_demo 2 3))"
    by (simp add: st_demo_def eventLoop_init_def I_demo_def P_demo_def queue_def isNull_def)
  have e: "trace (dispatch_due I_demo P_demo (st_demo 2 3)) = [ActQueue (Event 2 0) 3]"
    "\<not> isRoomInBuffer (sched (st_demo 2 3))"
    by code_simp+
  from dispatch_clears_slot [of "st_demo 2 3" I_demo P_demo] h e show ?thesis
    by blast
qed

text \<open>
  C8 (exit flag reset on return). The constructor leaves the exit flag false,
  \<^verbatim>\<open>exitEventLoop\<close> sets it, and whenever \<^verbatim>\<open>eventLoop\<close> returns the flag is false in
  the scheduler it leaves. So \<^verbatim>\<open>eventLoop\<close> can be called again on that scheduler, with
  any interface and in any world, and does not return at once: it runs an idle slice
  with the wide interval class.
\<close>

theorem exit_flag_reset:
  "doExit (Scheduler_new ms) = False
   \<and> doExit (exitEventLoop s0) = True
   \<and> (eventLoop fuel I P s w = Returned st \<longrightarrow>
        doExit (sched st) = False
        \<and> (\<exists>busy calls. ActOnIdleCpu OnIdleCpuIntervalWide busy calls
              \<in> set (trace (outcome_state (eventLoop (Suc fuel') I' P' (sched st) w')))))"
proof -
  have "doExit (sched st) = False
        \<and> (\<exists>busy calls. ActOnIdleCpu OnIdleCpuIntervalWide busy calls
              \<in> set (trace (outcome_state (eventLoop (Suc fuel') I' P' (sched st) w'))))"
    if r: "eventLoop fuel I P s w = Returned st"
  proof -
    have d: "doExit (sched st) = False"
      using r by (auto simp: eventLoop_def split: outcome.splits)
    then have "\<not> doExit (sched (eventLoop_init (sched st) w'))"
      by (simp add: eventLoop_init_def)
    from first_iteration_runs [OF this, of fuel' I' P'] d show ?thesis
      by (simp add: eventLoop_fields) (simp add: eventLoop_init_def)
  qed
  then show ?thesis
    by (simp add: Scheduler_new_def setDefaultMaxSleep_def setMaxSleep_def exitEventLoop_def)
qed

theorem exit_flag_reset_witness:
  "eventLoop 9 I_demo P_demo (Scheduler_new 1) 0
     = Returned (outcome_state (eventLoop 9 I_demo P_demo (Scheduler_new 1) 0))
   \<and> doExit (sched (outcome_state (eventLoop 9 I_demo P_demo (Scheduler_new 1) 0))) = False
   \<and> (\<exists>busy calls. ActOnIdleCpu OnIdleCpuIntervalWide busy calls
         \<in> set (trace (outcome_state (eventLoop (Suc 0) I_demo P_demo
                  (sched (outcome_state (eventLoop 9 I_demo P_demo (Scheduler_new 1) 0))) 0))))
   \<and> doExit (exitEventLoop (Scheduler_new 1 :: nat Scheduler)) = True"
proof -
  have "has_returned (eventLoop 9 I_demo P_demo (Scheduler_new 1) 0)"
    by code_simp
  then have h: "eventLoop 9 I_demo P_demo (Scheduler_new 1) 0
     = Returned (outcome_state (eventLoop 9 I_demo P_demo (Scheduler_new 1) 0))"
    by (cases "eventLoop 9 I_demo P_demo (Scheduler_new 1) 0") simp_all
  from exit_flag_reset [of 1 "Scheduler_new 1 :: nat Scheduler" 9 I_demo P_demo "Scheduler_new 1" 0
      "outcome_state (eventLoop 9 I_demo P_demo (Scheduler_new 1) 0)" 0 I_demo P_demo 0] h
  show ?thesis by blast
qed

text \<open>
  C9 (cumulative counter). In the state any run of the loop has reached,
  \<^verbatim>\<open>numShortIntervals\<close> is the number of idle slices that have returned true since the
  loop started (in 32 bits): nothing but a true result changes it. Every idle slice
  was given the interval class that \<open>interval_after\<close> reads off the slices before it,
  and after a true result the local \<^verbatim>\<open>intervalT\<close> is wide exactly when that number is a
  multiple of 2048. So the promotion does not wait for 2048 true results in a row: in
  the run where only the 2048th idle slice returns false, the 2050th is given the wide
  class after a burst of a single true result.
\<close>

theorem counter_is_cumulative:
  "numShortIntervals (outcome_state (eventLoop fuel I P s w))
     = of_nat (count_true (idle_calls (trace (outcome_state (eventLoop fuel I P s w)))))
   \<and> intervals_follow (idle_calls (trace (outcome_state (eventLoop fuel I P s w))))
   \<and> (idle_calls (trace (outcome_state (eventLoop fuel I P s w))) = (iv, True) # older \<longrightarrow>
        intervalT (outcome_state (eventLoop fuel I P s w))
          = (if 2048 dvd count_true (idle_calls (trace (outcome_state (eventLoop fuel I P s w))))
             then OnIdleCpuIntervalWide else OnIdleCpuIntervalShort))
   \<and> (\<exists>older'. idle_calls (trace (outcome_state
          (eventLoop 2050 (I_scripted (\<lambda>j. j \<noteq> 2047)) P_still (Scheduler_new 1) 0)))
        = (OnIdleCpuIntervalWide, True) # (OnIdleCpuIntervalWide, True)
          # (OnIdleCpuIntervalShort, False) # older')"
proof (intro conjI impI)
  show "numShortIntervals (outcome_state (eventLoop fuel I P s w))
     = of_nat (count_true (idle_calls (trace (outcome_state (eventLoop fuel I P s w)))))"
    using eventLoop_counting [of fuel I P s w] by (simp add: counting_def)
  show "intervals_follow (idle_calls (trace (outcome_state (eventLoop fuel I P s w))))"
    using eventLoop_counting [of fuel I P s w] by (simp add: counting_def)
  show "\<exists>older'. idle_calls (trace (outcome_state
          (eventLoop 2050 (I_scripted (\<lambda>j. j \<noteq> 2047)) P_still (Scheduler_new 1) 0)))
        = (OnIdleCpuIntervalWide, True) # (OnIdleCpuIntervalWide, True)
          # (OnIdleCpuIntervalShort, False) # older'"
    by (rule burst_of_one_promoted)
next
  assume a: "idle_calls (trace (outcome_state (eventLoop fuel I P s w))) = (iv, True) # older"
  have "intervalT (outcome_state (eventLoop fuel I P s w))
     = interval_after (idle_calls (trace (outcome_state (eventLoop fuel I P s w))))"
    using a by (rule eventLoop_interval_after_busy)
  also have "\<dots> = (if 2048 dvd count_true (idle_calls (trace (outcome_state (eventLoop fuel I P s w))))
             then OnIdleCpuIntervalWide else OnIdleCpuIntervalShort)"
    by (rule interval_after_busy) (simp_all add: a)
  finally show "intervalT (outcome_state (eventLoop fuel I P s w))
          = (if 2048 dvd count_true (idle_calls (trace (outcome_state (eventLoop fuel I P s w))))
             then OnIdleCpuIntervalWide else OnIdleCpuIntervalShort)" .
qed

theorem counter_is_cumulative_witness:
  "idle_calls (trace (outcome_state (eventLoop 5 I_demo P_demo (Scheduler_new 1) 0)))
     = (OnIdleCpuIntervalShort, True) # [(OnIdleCpuIntervalShort, True), (OnIdleCpuIntervalShort, True),
         (OnIdleCpuIntervalShort, True), (OnIdleCpuIntervalWide, True)]
   \<and> intervalT (outcome_state (eventLoop 5 I_demo P_demo (Scheduler_new 1) 0))
       = (if 2048 dvd count_true (idle_calls (trace (outcome_state
              (eventLoop 5 I_demo P_demo (Scheduler_new 1) 0))))
          then OnIdleCpuIntervalWide else OnIdleCpuIntervalShort)
   \<and> numShortIntervals (outcome_state (eventLoop 5 I_demo P_demo (Scheduler_new 1) 0)) = 5"
proof -
  have h: "idle_calls (trace (outcome_state (eventLoop 5 I_demo P_demo (Scheduler_new 1) 0)))
     = (OnIdleCpuIntervalShort, True) # [(OnIdleCpuIntervalShort, True), (OnIdleCpuIntervalShort, True),
         (OnIdleCpuIntervalShort, True), (OnIdleCpuIntervalWide, True)]"
    by code_simp
  have n: "numShortIntervals (outcome_state (eventLoop 5 I_demo P_demo (Scheduler_new 1) 0)) = 5"
    by code_simp
  from counter_is_cumulative [of 5 I_demo P_demo "Scheduler_new 1" 0 OnIdleCpuIntervalShort
      "[(OnIdleCpuIntervalShort, True), (OnIdleCpuIntervalShort, True),
         (OnIdleCpuIntervalShort, True), (OnIdleCpuIntervalWide, True)]"] h n
  show ?thesis by blast
qed

text \<open>
  C10 (cancellation before entry). If \<^verbatim>\<open>exitEventLoop\<close> was called before \<^verbatim>\<open>eventLoop\<close>,
  then \<^verbatim>\<open>eventLoop\<close> returns, on any fuel, without a single dispatch, idle slice or
  sleep: the trace is empty and the world untouched. The pending slot and the sleep
  ceiling are as they were, and the exit flag is false again.
\<close>

theorem cancel_before_entry:
  "eventLoop fuel I P (exitEventLoop s) w =
     Returned \<lparr>sched = s\<lparr>doExit := False\<rparr>, intervalT = OnIdleCpuIntervalWide,
               numShortIntervals = 0, world = w, trace = []\<rparr>
   \<and> nextEvent (sched (outcome_state (eventLoop fuel I P (exitEventLoop s) w))) = nextEvent s
   \<and> MAX_SLEEP (sched (outcome_state (eventLoop fuel I P (exitEventLoop s) w))) = MAX_SLEEP s
   \<and> doExit (sched (outcome_state (eventLoop fuel I P (exitEventLoop s) w))) = False"
  by (simp add: eventLoop_def eventLoop_while_doExit eventLoop_init_def exitEventLoop_def)

end
